theory Spec2Isabelle
  imports Complex_Main "HOL-Library.Sublist"
begin

section \<open>Strings and numbers of the source language\<close>

text \<open>
  The program is TypeScript. Its strings are modelled as \<^typ>\<open>string\<close> restricted to ASCII:
  a character is one code unit, \<open>toLowerCase\<close> maps \<open>A\<close>..\<open>Z\<close> to \<open>a\<close>..\<open>z\<close> and leaves every
  other character alone, and the whitespace class \<open>\s\<close> (which is also what \<open>trim\<close> strips)
  is tab, line feed, vertical tab, form feed, carriage return and space. Its numbers are
  modelled as exact reals; \<open>Math.round\<close> rounds to the nearest integer, a tie going up.
  A string is falsy exactly when it is empty.
\<close>

definition isSpace :: "char \<Rightarrow> bool" where
  "isSpace c = (c \<in> set [CHR 0x09, CHR 0x0A, CHR 0x0B, CHR 0x0C, CHR 0x0D, CHR '' ''])"

definition toLowerChar :: "char \<Rightarrow> char" where
  "toLowerChar c =
     (let n = (of_char c :: nat) in if 65 \<le> n \<and> n \<le> 90 then char_of (n + 32) else c)"

definition toLowerCase :: "string \<Rightarrow> string" where
  "toLowerCase s = map toLowerChar s"

definition trim :: "string \<Rightarrow> string" where
  "trim s = rev (dropWhile isSpace (rev (dropWhile isSpace s)))"

text \<open>
  \<open>s.split(/\s+/)\<close>: the pieces of \<open>s\<close> between the maximal runs of whitespace. The piece
  before a leading run and the piece after a trailing run are empty strings, and the
  empty string splits into one empty piece. \<open>splitFrom piece rest\<close> carries the piece
  read so far.
\<close>

function splitFrom :: "string \<Rightarrow> string \<Rightarrow> string list" where
  "splitFrom piece [] = [piece]"
| "splitFrom piece (c # cs) =
     (if isSpace c then piece # splitFrom [] (dropWhile isSpace cs)
      else splitFrom (piece @ [c]) cs)"
  by pat_completeness auto
termination
  by (relation "measure (\<lambda>(piece, s). length s)")
     (auto simp: le_imp_less_Suc length_dropWhile_le)

definition split_ws :: "string \<Rightarrow> string list" where
  "split_ws s = splitFrom [] s"

definition Math_round :: "real \<Rightarrow> int" where
  "Math_round x = \<lfloor>x + 1 / 2\<rfloor>"

section \<open>phonemeUtils.ts: word similarity and the base score\<close>

text \<open>
  \<open>levenshteinDistance\<close> fills a matrix with one row for each prefix of \<open>str2\<close> and one
  column for each prefix of \<open>str1\<close>. Row 0 is \<open>0, 1, .., str1.length\<close>; row \<open>i\<close> starts with
  \<open>i\<close> and is filled from left to right from the row above. \<open>fillRow c str1 prev left\<close>
  computes the cells of one row after its first: \<open>prev\<close> is the row above from the
  diagonal cell on, \<open>left\<close> is the cell just written.
\<close>

fun fillRow :: "char \<Rightarrow> string \<Rightarrow> nat list \<Rightarrow> nat \<Rightarrow> nat list" where
  "fillRow c (d # ds) (diag # up # prev) left =
     (let v = (if c = d then diag else min (diag + 1) (min (left + 1) (up + 1)))
      in v # fillRow c ds (up # prev) v)"
| "fillRow c _ _ left = []"

fun fillRows :: "string \<Rightarrow> string \<Rightarrow> nat \<Rightarrow> nat list \<Rightarrow> nat list" where
  "fillRows [] str1 i prev = prev"
| "fillRows (c # cs) str1 i prev = fillRows cs str1 (Suc i) (i # fillRow c str1 prev i)"

definition levenshteinDistance :: "string \<Rightarrow> string \<Rightarrow> nat" where
  "levenshteinDistance str1 str2 = last (fillRows str2 str1 1 [0..<Suc (length str1)])"

definition calculateStringSimilarity :: "string \<Rightarrow> string \<Rightarrow> real" where
  "calculateStringSimilarity str1 str2 =
     (let longer = (if length str1 > length str2 then str1 else str2);
          shorter = (if length str1 > length str2 then str2 else str1)
      in if length longer = 0 then 1
         else (real (length longer) - real (levenshteinDistance longer shorter))
                / real (length longer))"

text \<open>The loop of \<open>comparePhonemes\<close> over the positions both word lists have.\<close>

fun matchLoop :: "string list \<Rightarrow> string list \<Rightarrow> real \<Rightarrow> real" where
  "matchLoop (u # us) (t # ts) matches =
     matchLoop us ts (if u = t then matches + 1 else matches + calculateStringSimilarity u t)"
| "matchLoop _ _ matches = matches"

definition comparePhonemes :: "string \<Rightarrow> string \<Rightarrow> int" where
  "comparePhonemes userText targetText =
     (if userText = [] \<or> targetText = [] then 0
      else let userWords = split_ws (trim (toLowerCase userText));
               targetWords = split_ws (trim (toLowerCase targetText));
               maxLength = max (length userWords) (length targetWords);
               matches = matchLoop userWords targetWords 0
           in Math_round (matches / real maxLength * 100))"

section \<open>ComparisonAgent.ts: the accuracy score\<close>

definition calculateLengthPenalty :: "string \<Rightarrow> string \<Rightarrow> real" where
  "calculateLengthPenalty userText targetText =
     (let userWords = length (split_ws (trim userText));
          targetWords = length (split_ws (trim targetText));
          lengthDifference = \<bar>int userWords - int targetWords\<bar>;
          maxWords = max userWords targetWords
      in if maxWords = 0 then 0
         else real_of_int lengthDifference / real maxWords * 30)"

text \<open>
  The loop of \<open>calculateWordOrderBonus\<close>: \<open>consecutiveMatches\<close> counts the current run of
  equal positions, \<open>maxConsecutive\<close> the longest run so far.
\<close>

fun orderLoop :: "string list \<Rightarrow> string list \<Rightarrow> nat \<Rightarrow> nat \<Rightarrow> nat" where
  "orderLoop (u # us) (t # ts) consecutiveMatches maxConsecutive =
     (if u = t
      then orderLoop us ts (consecutiveMatches + 1) (max maxConsecutive (consecutiveMatches + 1))
      else orderLoop us ts 0 maxConsecutive)"
| "orderLoop _ _ consecutiveMatches maxConsecutive = maxConsecutive"

definition calculateWordOrderBonus :: "string \<Rightarrow> string \<Rightarrow> real" where
  "calculateWordOrderBonus userText targetText =
     (let userWords = split_ws (trim (toLowerCase userText));
          targetWords = split_ws (trim (toLowerCase targetText));
          maxConsecutive = orderLoop userWords targetWords 0 0
      in real maxConsecutive / real (length targetWords) * 20)"

definition compareTexts :: "string \<Rightarrow> string \<Rightarrow> int" where
  "compareTexts userText targetText =
     (if userText = [] \<or> targetText = [] then 0
      else let score = comparePhonemes userText targetText;
               lengthPenalty = calculateLengthPenalty userText targetText;
               wordOrderBonus = calculateWordOrderBonus userText targetText;
               finalScore = real_of_int score * (7 / 10) + wordOrderBonus * (2 / 10)
                              - lengthPenalty * (1 / 10)
           in max 0 (min 100 (Math_round finalScore)))"

section \<open>ComparisonAgent.ts: the error report\<close>

record substitution =
  original :: string
  spoken :: string

record errorReport =
  missedWords :: "string list"
  addedWords :: "string list"
  substitutions :: "substitution list"

text \<open>
  \<open>wordAt ws i\<close> is \<open>i < ws.length ? ws[i] : null\<close>, with \<open>None\<close> for \<open>null\<close>. A word is truthy
  when it is neither \<open>null\<close> nor the empty string.
\<close>

definition wordAt :: "string list \<Rightarrow> nat \<Rightarrow> string option" where
  "wordAt ws i = (if i < length ws then Some (ws ! i) else None)"

fun truthy :: "string option \<Rightarrow> bool" where
  "truthy None = False"
| "truthy (Some w) = (w \<noteq> [])"

definition errorStep :: "string list \<Rightarrow> string list \<Rightarrow> nat \<Rightarrow> errorReport \<Rightarrow> errorReport" where
  "errorStep userWords targetWords i r =
     (let userWord = wordAt userWords i;
          targetWord = wordAt targetWords i
      in if truthy targetWord \<and> \<not> truthy userWord
         then r\<lparr>missedWords := missedWords r @ [the targetWord]\<rparr>
         else if truthy userWord \<and> \<not> truthy targetWord
         then r\<lparr>addedWords := addedWords r @ [the userWord]\<rparr>
         else if truthy userWord \<and> truthy targetWord \<and> userWord \<noteq> targetWord
         then r\<lparr>substitutions := substitutions r
                  @ [\<lparr>original = the targetWord, spoken = the userWord\<rparr>]\<rparr>
         else r)"

definition emptyReport :: errorReport where
  "emptyReport = \<lparr>missedWords = [], addedWords = [], substitutions = []\<rparr>"

definition analyzeErrors :: "string \<Rightarrow> string \<Rightarrow> errorReport" where
  "analyzeErrors userText targetText =
     (let userWords = split_ws (trim (toLowerCase userText));
          targetWords = split_ws (trim (toLowerCase targetText));
          maxLength = max (length userWords) (length targetWords)
      in fold (errorStep userWords targetWords) [0..<maxLength] emptyReport)"

section \<open>ComparisonAgent.ts: the numeric difficulty\<close>









section \<open>phrases.ts: the difficulty tier\<close>











section \<open>phonemeUtils.ts and FeedbackAgent.ts: grade and motivation\<close>

definition getLetterGrade :: "real \<Rightarrow> string" where
  "getLetterGrade score =
     (if score \<ge> 97 then ''A+''
      else if score \<ge> 93 then ''A''
      else if score \<ge> 90 then ''A-''
      else if score \<ge> 87 then ''B+''
      else if score \<ge> 83 then ''B''
      else if score \<ge> 80 then ''B-''
      else if score \<ge> 77 then ''C+''
      else if score \<ge> 73 then ''C''
      else if score \<ge> 70 then ''C-''
      else if score \<ge> 67 then ''D+''
      else if score \<ge> 65 then ''D''
      else ''F'')"

text \<open>The method of \<open>FeedbackAgent\<close> hands its argument to the function above.\<close>

definition FeedbackAgent_getLetterGrade :: "real \<Rightarrow> string" where
  "FeedbackAgent_getLetterGrade score = getLetterGrade score"

text \<open>
  The messages of \<open>generateMotivationalMessage\<close>, each without the pictograph that ends it
  in the source.
\<close>

definition welcomeMessage :: string where
  "welcomeMessage =
     ''Welcome to pronunciation practice! Let's start building your speaking confidence!''"

definition amazingMessage :: string where
  "amazingMessage = ''Amazing improvement! You're really getting the hang of this!''"

definition greatMessage :: string where
  "greatMessage = ''Great progress! Keep up the excellent work!''"

definition niceMessage :: string where
  "niceMessage = ''Nice job! You're steadily improving!''"

definition steadyMessage :: string where
  "steadyMessage = ''Stay consistent! Small daily practice leads to big improvements!''"

definition supportMessage :: string where
  "supportMessage = ''Don't worry about one session. Focus on the long-term progress!''"

text \<open>\<open>slice_last n xs\<close> is \<open>xs.slice(-n)\<close>, the last \<open>n\<close> elements or all of them.\<close>

definition slice_last :: "nat \<Rightarrow> 'a list \<Rightarrow> 'a list" where
  "slice_last n xs = drop (length xs - n) xs"

definition generateMotivationalMessage :: "real \<Rightarrow> real list \<Rightarrow> string" where
  "generateMotivationalMessage currentScore previousScores =
     (if length previousScores = 0 then welcomeMessage
      else let recentAverage =
                 fold (\<lambda>score sum. sum + score) (slice_last 3 previousScores) 0
                   / real (min 3 (length previousScores));
               improvement = currentScore - recentAverage
           in if improvement > 10 then amazingMessage
              else if improvement > 5 then greatMessage
              else if improvement > 0 then niceMessage
              else if improvement > -5 then steadyMessage
              else supportMessage)"

section \<open>Specification-level notions\<close>

text \<open>
  The average the motivational message is specified with: the mean of the last three
  prior scores, or of all of them when there are fewer than three.
\<close>

definition recentScores :: "real list \<Rightarrow> real list" where
  "recentScores prior = (if length prior < 3 then prior else drop (length prior - 3) prior)"

definition recentAvg :: "real list \<Rightarrow> real" where
  "recentAvg prior = sum_list (recentScores prior) / real (length (recentScores prior))"

text \<open>
  The words of a text: its maximal runs of characters that are not whitespace. A text of
  whitespace only has no words. \<open>tokensFrom w rest\<close> carries the word read so far.
\<close>

fun tokensFrom :: "string \<Rightarrow> string \<Rightarrow> string list" where
  "tokensFrom w [] = (if w = [] then [] else [w])"
| "tokensFrom w (c # cs) =
     (if isSpace c then (if w = [] then tokensFrom [] cs else w # tokensFrom [] cs)
      else tokensFrom (w @ [c]) cs)"

definition tokens :: "string \<Rightarrow> string list" where
  "tokens s = tokensFrom [] s"

text \<open>
  The score as the specification words it. \<open>isRun U T i k\<close>: the \<open>k\<close> positions from \<open>i\<close> on
  exist in both word lists and hold equal words; \<open>longestRun\<close> is the length of the longest
  such run. \<open>baseScore\<close>, \<open>lengthPenalty\<close> and \<open>orderBonus\<close> are the three parts of the
  score, \<open>weightedScore\<close> weights, clamps and rounds them, and \<open>claimedScore\<close> does so with
  the base score as it is, not rounded first.
\<close>

definition isRun :: "string list \<Rightarrow> string list \<Rightarrow> nat \<Rightarrow> nat \<Rightarrow> bool" where
  "isRun U T i k = (i + k \<le> min (length U) (length T) \<and> (\<forall>j<k. U ! (i + j) = T ! (i + j)))"

definition longestRun :: "string list \<Rightarrow> string list \<Rightarrow> nat" where
  "longestRun U T = Max {k. \<exists>i. isRun U T i k}"

definition clamp :: "real \<Rightarrow> real \<Rightarrow> real \<Rightarrow> real" where
  "clamp x lo hi = max lo (min hi x)"

definition baseScore :: "string list \<Rightarrow> string list \<Rightarrow> real" where
  "baseScore U T =
     (\<Sum>i<min (length U) (length T).
        if U ! i = T ! i then 1 else calculateStringSimilarity (U ! i) (T ! i))
       / real (max (length U) (length T)) * 100"

definition lengthPenalty :: "string list \<Rightarrow> string list \<Rightarrow> real" where
  "lengthPenalty U T =
     real_of_int \<bar>int (length U) - int (length T)\<bar> / real (max (length U) (length T)) * 30"

definition orderBonus :: "string list \<Rightarrow> string list \<Rightarrow> real" where
  "orderBonus U T = real (longestRun U T) / real (length T) * 20"



text \<open>
  Two texts have the same words in another whitespace layout when one comes from the other
  by adding or removing whitespace in front or at the end, or by replacing one run of
  whitespace by another, any number of times.
\<close>

inductive relayout :: "string \<Rightarrow> string \<Rightarrow> bool" where
  same: "relayout s s"
| lead: "list_all isSpace ws \<Longrightarrow> relayout s (ws @ s)"
| trail: "list_all isSpace ws \<Longrightarrow> relayout s (s @ ws)"
| inner: "ws \<noteq> [] \<Longrightarrow> ws' \<noteq> [] \<Longrightarrow> list_all isSpace ws \<Longrightarrow> list_all isSpace ws'
            \<Longrightarrow> relayout (a @ ws @ b) (a @ ws' @ b)"
| sym: "relayout s s' \<Longrightarrow> relayout s' s"
| trans: "relayout s s' \<Longrightarrow> relayout s' s'' \<Longrightarrow> relayout s s''"

text \<open>
  The positional walk over two word lists as the specification words it: a position
  holds a word when it is below the length of the list. \<open>substitutionsOf\<close> lists the
  unequal pairs of the positions both lists have.
\<close>

definition specStep :: "string list \<Rightarrow> string list \<Rightarrow> nat \<Rightarrow> errorReport \<Rightarrow> errorReport" where
  "specStep U T i r =
     (if i < length T \<and> \<not> i < length U
      then r\<lparr>missedWords := missedWords r @ [T ! i]\<rparr>
      else if i < length U \<and> \<not> i < length T
      then r\<lparr>addedWords := addedWords r @ [U ! i]\<rparr>
      else if i < length U \<and> i < length T \<and> U ! i \<noteq> T ! i
      then r\<lparr>substitutions := substitutions r @ [\<lparr>original = T ! i, spoken = U ! i\<rparr>]\<rparr>
      else r)"

definition positionalWalk :: "string list \<Rightarrow> string list \<Rightarrow> errorReport" where
  "positionalWalk U T = fold (specStep U T) [0..<max (length U) (length T)] emptyReport"

definition substitutionsOf :: "string list \<Rightarrow> string list \<Rightarrow> substitution list" where
  "substitutionsOf U T =
     map (\<lambda>(u, t). \<lparr>original = t, spoken = u\<rparr>) (filter (\<lambda>(u, t). u \<noteq> t) (zip U T))"








section \<open>Basic facts about splitting\<close>

lemma splitFrom_nonempty: "splitFrom piece s \<noteq> []"
  by (induction piece s rule: splitFrom.induct) auto

lemma split_ws_nonempty: "split_ws s \<noteq> []"
  by (simp add: split_ws_def splitFrom_nonempty)


section \<open>The letter grade\<close>

text \<open>
  C4. \<open>getLetterGrade\<close> maps every real score by the stepped thresholds 97, 93, 90, 87, 83,
  80, 77, 73, 70, 67 and 65: each grade is returned on exactly its interval, A+ from 97
  upwards without bound and F below 65 without bound. So 100 and 110 give A+, 95 gives A,
  and 60, 0 and -10 give F. The method of \<open>FeedbackAgent\<close> returns the same grade.
\<close>

theorem getLetterGrade_thresholds:
  "(getLetterGrade s = ''A+'' \<longleftrightarrow> 97 \<le> s)
   \<and> (getLetterGrade s = ''A'' \<longleftrightarrow> 93 \<le> s \<and> s < 97)
   \<and> (getLetterGrade s = ''A-'' \<longleftrightarrow> 90 \<le> s \<and> s < 93)
   \<and> (getLetterGrade s = ''B+'' \<longleftrightarrow> 87 \<le> s \<and> s < 90)
   \<and> (getLetterGrade s = ''B'' \<longleftrightarrow> 83 \<le> s \<and> s < 87)
   \<and> (getLetterGrade s = ''B-'' \<longleftrightarrow> 80 \<le> s \<and> s < 83)
   \<and> (getLetterGrade s = ''C+'' \<longleftrightarrow> 77 \<le> s \<and> s < 80)
   \<and> (getLetterGrade s = ''C'' \<longleftrightarrow> 73 \<le> s \<and> s < 77)
   \<and> (getLetterGrade s = ''C-'' \<longleftrightarrow> 70 \<le> s \<and> s < 73)
   \<and> (getLetterGrade s = ''D+'' \<longleftrightarrow> 67 \<le> s \<and> s < 70)
   \<and> (getLetterGrade s = ''D'' \<longleftrightarrow> 65 \<le> s \<and> s < 67)
   \<and> (getLetterGrade s = ''F'' \<longleftrightarrow> s < 65)
   \<and> getLetterGrade 100 = ''A+'' \<and> getLetterGrade 110 = ''A+'' \<and> getLetterGrade 95 = ''A''
   \<and> getLetterGrade 60 = ''F'' \<and> getLetterGrade 0 = ''F'' \<and> getLetterGrade (- 10) = ''F''
   \<and> FeedbackAgent_getLetterGrade s = getLetterGrade s"
  unfolding getLetterGrade_def FeedbackAgent_getLetterGrade_def by auto

section \<open>The motivational message\<close>

lemma fold_plus_sum_list: "fold (\<lambda>score sum. sum + score) xs (a::real) = a + sum_list xs"
  by (induction xs arbitrary: a) auto

lemma slice_last_recentScores: "slice_last 3 prior = recentScores prior"
  by (simp add: slice_last_def recentScores_def)

lemma length_recentScores: "length (recentScores prior) = min 3 (length prior)"
  by (simp add: recentScores_def)

text \<open>
  C9. With no prior score the message is the welcome message. Otherwise the improvement
  is the current score minus the mean of the last three prior scores (of all of them when
  there are fewer than three), and the message is the one of five fixed messages picked
  by the thresholds \<open>> 10\<close>, \<open>> 5\<close>, \<open>> 0\<close>, \<open>> -5\<close> and otherwise. The six messages are
  different from each other.
\<close>

theorem generateMotivationalMessage_tiers:
  "generateMotivationalMessage currentScore prior =
     (if prior = [] then welcomeMessage
      else if currentScore - recentAvg prior > 10 then amazingMessage
      else if currentScore - recentAvg prior > 5 then greatMessage
      else if currentScore - recentAvg prior > 0 then niceMessage
      else if currentScore - recentAvg prior > - 5 then steadyMessage
      else supportMessage)
   \<and> distinct [welcomeMessage, amazingMessage, greatMessage, niceMessage, steadyMessage,
        supportMessage]"
proof -
  have avg: "fold (\<lambda>score sum. sum + score) (slice_last 3 prior) 0
               / real (min 3 (length prior)) = recentAvg prior"
    by (simp add: fold_plus_sum_list slice_last_recentScores recentAvg_def
        length_recentScores)
  have "distinct [welcomeMessage, amazingMessage, greatMessage, niceMessage, steadyMessage,
          supportMessage]"
    by (simp add: welcomeMessage_def amazingMessage_def greatMessage_def niceMessage_def
        steadyMessage_def supportMessage_def)
  moreover have "generateMotivationalMessage currentScore prior =
     (if prior = [] then welcomeMessage
      else if currentScore - recentAvg prior > 10 then amazingMessage
      else if currentScore - recentAvg prior > 5 then greatMessage
      else if currentScore - recentAvg prior > 0 then niceMessage
      else if currentScore - recentAvg prior > - 5 then steadyMessage
      else supportMessage)"
    unfolding generateMotivationalMessage_def Let_def avg by simp
  ultimately show ?thesis by simp
qed

section \<open>Lower case, trimming, splitting and words\<close>

lemma of_char_space: "isSpace c \<Longrightarrow> (of_char c :: nat) \<le> 32"
  by (auto simp: isSpace_def)

lemma isSpace_toLowerChar [simp]: "isSpace (toLowerChar c) = isSpace c"
proof (cases "65 \<le> (of_char c :: nat) \<and> (of_char c :: nat) \<le> 90")
  case True
  then have "(of_char (toLowerChar c) :: nat) = of_char c + 32"
    by (simp add: toLowerChar_def Let_def)
  with True have "\<not> isSpace (toLowerChar c)" "\<not> isSpace c"
    using of_char_space [of c] of_char_space [of "toLowerChar c"] by auto
  then show ?thesis by simp
next
  case False
  then show ?thesis by (auto simp: toLowerChar_def Let_def)
qed

lemma toLowerChar_idem [simp]: "toLowerChar (toLowerChar c) = toLowerChar c"
proof (cases "65 \<le> (of_char c :: nat) \<and> (of_char c :: nat) \<le> 90")
  case True
  then have "(of_char (toLowerChar c) :: nat) = of_char c + 32"
    by (simp add: toLowerChar_def Let_def)
  with True show ?thesis
    by (simp add: toLowerChar_def [of "toLowerChar c"] Let_def)
next
  case False
  then show ?thesis by (auto simp: toLowerChar_def Let_def)
qed

lemma toLowerCase_idem [simp]: "toLowerCase (toLowerCase s) = toLowerCase s"
  by (simp add: toLowerCase_def)

lemma toLowerCase_Nil_iff [simp]: "toLowerCase s = [] \<longleftrightarrow> s = []"
  by (simp add: toLowerCase_def)

lemma dropWhile_isSpace_toLowerCase:
  "dropWhile isSpace (toLowerCase s) = toLowerCase (dropWhile isSpace s)"
  by (simp add: toLowerCase_def dropWhile_map comp_def)

lemma trim_toLowerCase: "trim (toLowerCase s) = toLowerCase (trim s)"
  by (simp add: trim_def toLowerCase_def dropWhile_map comp_def rev_map)

lemma splitFrom_toLowerCase:
  "splitFrom (toLowerCase piece) (toLowerCase s) = map toLowerCase (splitFrom piece s)"
proof (induction piece s rule: splitFrom.induct)
  case (1 piece)
  then show ?case by (simp add: toLowerCase_def)
next
  case (2 piece c cs)
  show ?case
  proof (cases "isSpace c")
    case True
    with 2 show ?thesis
      using dropWhile_isSpace_toLowerCase [of cs]
      by (simp add: toLowerCase_def)
  next
    case False
    with 2 show ?thesis
      by (simp add: toLowerCase_def)
  qed
qed

lemma split_ws_toLowerCase: "split_ws (toLowerCase s) = map toLowerCase (split_ws s)"
  using splitFrom_toLowerCase [of "[]" s] by (simp add: split_ws_def toLowerCase_def)

lemma tokensFrom_spaces: "\<forall>c \<in> set ws. isSpace c \<Longrightarrow> tokensFrom [] (ws @ s) = tokensFrom [] s"
  by (induction ws) auto

lemma tokensFrom_all_space:
  "\<forall>c \<in> set ws. isSpace c \<Longrightarrow> tokensFrom w ws = (if w = [] then [] else [w])"
  by (induction ws arbitrary: w) auto

lemma tokensFrom_append_space:
  "isSpace c \<Longrightarrow> tokensFrom w (a @ c # b) = tokensFrom w a @ tokensFrom [] b"
  by (induction a arbitrary: w) auto

lemma tokens_lead: "\<forall>c \<in> set ws. isSpace c \<Longrightarrow> tokens (ws @ s) = tokens s"
  by (simp add: tokens_def tokensFrom_spaces)

lemma tokens_inner:
  assumes "ws \<noteq> []" "\<forall>c \<in> set ws. isSpace c"
  shows "tokens (a @ ws @ b) = tokens a @ tokens b"
proof -
  from assms obtain c cs where ws: "ws = c # cs" and c: "isSpace c" and cs: "\<forall>c \<in> set cs. isSpace c"
    by (cases ws) auto
  have "tokens (a @ ws @ b) = tokensFrom [] a @ tokensFrom [] (cs @ b)"
    using tokensFrom_append_space [OF c, of "[]" a "cs @ b"] by (simp add: tokens_def ws)
  then show ?thesis
    by (simp add: tokens_def tokensFrom_spaces [OF cs])
qed

lemma tokens_spaces: "\<forall>c \<in> set ws. isSpace c \<Longrightarrow> tokens ws = []"
  by (simp add: tokens_def tokensFrom_all_space)

lemma tokens_trail: 
  assumes "\<forall>c \<in> set ws. isSpace c" shows "tokens (s @ ws) = tokens s"
proof (cases "ws = []")
  case True then show ?thesis by simp
next
  case False
  then have "tokens (s @ ws @ []) = tokens s @ tokens []"
    using assms by (rule tokens_inner)
  then show ?thesis by (simp add: tokens_def)
qed

lemma trim_decompose:
  "\<exists>l r. (\<forall>c \<in> set l. isSpace c) \<and> (\<forall>c \<in> set r. isSpace c) \<and> s = l @ trim s @ r"
proof -
  let ?d = "dropWhile isSpace s"
  have 1: "s = takeWhile isSpace s @ ?d" by simp
  have "?d = rev (dropWhile isSpace (rev ?d)) @ rev (takeWhile isSpace (rev ?d))"
    by (metis rev_append rev_rev_ident takeWhile_dropWhile_id)
  then have 2: "?d = trim s @ rev (takeWhile isSpace (rev ?d))"
    by (simp only: trim_def)
  have "s = takeWhile isSpace s @ trim s @ rev (takeWhile isSpace (rev ?d))"
    using 1 2 by (metis)
  moreover have "\<forall>c \<in> set (takeWhile isSpace s). isSpace c"
    by (auto dest: set_takeWhileD)
  moreover have "\<forall>c \<in> set (rev (takeWhile isSpace (rev ?d))). isSpace c"
    by (auto dest: set_takeWhileD)
  ultimately show ?thesis by blast
qed

lemma tokens_trim: "tokens (trim s) = tokens s"
proof -
  obtain l r where l: "\<forall>c \<in> set l. isSpace c" and r: "\<forall>c \<in> set r. isSpace c"
    and s: "s = l @ trim s @ r"
    using trim_decompose by blast
  have "tokens s = tokens (l @ (trim s @ r))" using s by simp
  also have "\<dots> = tokens (trim s @ r)" using l by (rule tokens_lead)
  also have "\<dots> = tokens (trim s)" using r by (rule tokens_trail)
  finally show ?thesis by simp
qed

lemma trim_ends:
  assumes "trim s \<noteq> []"
  shows "\<not> isSpace (hd (trim s))" and "\<not> isSpace (last (trim s))"
proof -
  let ?d = "dropWhile isSpace s"
  let ?e = "dropWhile isSpace (rev ?d)"
  from assms have e: "?e \<noteq> []" by (simp add: trim_def)
  have d: "?d \<noteq> []"
  proof
    assume "?d = []"
    then have "?e = []" by (simp only: rev.simps dropWhile.simps)
    with e show False by simp
  qed
  have "last (trim s) = hd ?e" by (simp add: trim_def last_rev)
  then show "\<not> isSpace (last (trim s))" using hd_dropWhile [OF e] by simp
  have "hd (trim s) = last ?e" using e by (simp add: trim_def hd_rev)
  also have "\<dots> = last (rev ?d)" using e by (metis last_appendR takeWhile_dropWhile_id)
  also have "\<dots> = hd ?d" using d by (simp add: last_rev)
  finally show "\<not> isSpace (hd (trim s))" using hd_dropWhile [OF d] by simp
qed

lemma filter_splitFrom:
  "filter (\<lambda>w. w \<noteq> []) (splitFrom piece s) = tokensFrom piece s"
proof (induction piece s rule: splitFrom.induct)
  case (1 piece)
  then show ?case by simp
next
  case (2 piece c cs)
  have "tokensFrom [] (takeWhile isSpace cs @ dropWhile isSpace cs) = tokensFrom [] (dropWhile isSpace cs)"
    by (rule tokensFrom_spaces) (auto dest: set_takeWhileD)
  then have "tokensFrom [] (dropWhile isSpace cs) = tokensFrom [] cs" by simp
  with 2 show ?case by simp
qed

lemma splitFrom_no_empty:
  "s = [] \<or> \<not> isSpace (last s) \<Longrightarrow> piece \<noteq> [] \<or> (s \<noteq> [] \<and> \<not> isSpace (hd s))
     \<Longrightarrow> [] \<notin> set (splitFrom piece s)"
proof (induction piece s rule: splitFrom.induct)
  case (1 piece)
  then show ?case by simp
next
  case (2 piece c cs)
  show ?case
  proof (cases "isSpace c")
    case True
    let ?r = "dropWhile isSpace cs"
    from True 2 have cs: "cs \<noteq> []" and lastcs: "\<not> isSpace (last cs)" and p: "piece \<noteq> []"
      by (auto split: if_splits)
    have r: "?r \<noteq> []"
      using cs lastcs by (metis dropWhile_eq_Nil_conv last_in_set)
    have "last ?r = last cs" using r by (metis last_appendR takeWhile_dropWhile_id)
    then have "[] \<notin> set (splitFrom [] ?r)"
      using 2(1) [OF True] r lastcs hd_dropWhile [OF r] by simp
    with True p show ?thesis by auto
  next
    case False
    with 2 show ?thesis by (auto split: if_splits)
  qed
qed

lemma split_ws_trim:
  "split_ws (trim s) = (if tokens s = [] then [[]] else tokens s)"
proof (cases "trim s = []")
  case True
  then have "tokens s = []" using tokens_trim [of s] by (simp add: tokens_def)
  with True show ?thesis by (simp add: split_ws_def)
next
  case False
  then have "[] \<notin> set (splitFrom [] (trim s))"
    using trim_ends [OF False] by (intro splitFrom_no_empty) auto
  then have "filter (\<lambda>w. w \<noteq> []) (splitFrom [] (trim s)) = splitFrom [] (trim s)"
    by (auto simp: filter_id_conv)
  then have eq: "split_ws (trim s) = tokens s"
    using filter_splitFrom [of "[]" "trim s"] tokens_trim [of s] by (simp add: split_ws_def tokens_def)
  have "split_ws (trim s) \<noteq> []" by (rule split_ws_nonempty)
  with eq show ?thesis by simp
qed

lemma tokens_Nil_iff: "tokens s = [] \<longleftrightarrow> trim s = []"
proof
  assume "trim s = []"
  then show "tokens s = []" using tokens_trim [of s] by (simp add: tokens_def)
next
  assume t: "tokens s = []"
  show "trim s = []"
  proof (rule ccontr)
    assume ne: "trim s \<noteq> []"
    then have "[] \<notin> set (splitFrom [] (trim s))"
      using trim_ends [OF ne] by (intro splitFrom_no_empty) auto
    moreover have "split_ws (trim s) = [[]]" using t by (simp add: split_ws_trim)
    ultimately show False by (simp add: split_ws_def)
  qed
qed

lemma tokens_no_empty: "[] \<notin> set (tokens s)"
proof -
  have "set (tokens s) = set (filter (\<lambda>w. w \<noteq> []) (splitFrom [] s))"
    by (simp only: filter_splitFrom tokens_def)
  then show ?thesis by simp
qed

section \<open>The loops of the score\<close>

lemma matchLoop_same: "matchLoop ws ws acc = acc + real (length ws)"
  by (induction ws arbitrary: acc) auto

lemma orderLoop_same: "c \<le> m \<Longrightarrow> orderLoop ws ws c m = max m (c + length ws)"
  by (induction ws arbitrary: c m) auto

lemma matchLoop_sum:
  "matchLoop U T acc = acc + (\<Sum>i<min (length U) (length T).
      if U ! i = T ! i then 1 else calculateStringSimilarity (U ! i) (T ! i))"
proof (induction U T acc rule: matchLoop.induct)
  case (1 u us t ts matches)
  then show ?case
    by (simp add: sum.lessThan_Suc_shift del: sum.lessThan_Suc cong: if_cong)
qed simp_all

lemma isRun_Nil_left [simp]: "isRun [] T i k \<longleftrightarrow> i = 0 \<and> k = 0"
  by (auto simp: isRun_def)

lemma isRun_Nil_right [simp]: "isRun U [] i k \<longleftrightarrow> i = 0 \<and> k = 0"
  by (auto simp: isRun_def)

lemma isRun_Suc [simp]: "isRun (u # us) (t # ts) (Suc i) k \<longleftrightarrow> isRun us ts i k"
  by (simp add: isRun_def)

lemma isRun_zero_len [simp]: "isRun U T i 0 \<longleftrightarrow> i \<le> min (length U) (length T)"
  by (simp add: isRun_def)

lemma isRun_Cons_0_Suc [simp]:
  "isRun (u # us) (t # ts) 0 (Suc k) \<longleftrightarrow> u = t \<and> isRun us ts 0 k"
proof -
  have "(\<forall>j<Suc k. (u # us) ! j = (t # ts) ! j) \<longleftrightarrow> (u = t \<and> (\<forall>j<k. us ! j = ts ! j))"
    by (auto simp: less_Suc_eq_0_disj)
  then show ?thesis by (auto simp: isRun_def)
qed

lemma orderLoop_inv:
  "c \<le> m \<Longrightarrow>
   m \<le> orderLoop us ts c m
   \<and> (\<forall>i k. isRun us ts i k \<longrightarrow> (if i = 0 then c + k else k) \<le> orderLoop us ts c m)
   \<and> (orderLoop us ts c m = m
        \<or> (\<exists>k. isRun us ts 0 k \<and> orderLoop us ts c m = c + k)
        \<or> (\<exists>i k. isRun us ts i k \<and> orderLoop us ts c m = k))"
proof (induction us ts c m rule: orderLoop.induct)
  case (1 u us t ts c m)
  show ?case
  proof (cases "u = t")
    case True
    let ?r = "orderLoop us ts (c + 1) (max m (c + 1))"
    have r: "orderLoop (u # us) (t # ts) c m = ?r" using True by simp
    have IH: "max m (c + 1) \<le> ?r"
      "\<And>i k. isRun us ts i k \<Longrightarrow> (if i = 0 then c + 1 + k else k) \<le> ?r"
      "?r = max m (c + 1) \<or> (\<exists>k. isRun us ts 0 k \<and> ?r = c + 1 + k)
        \<or> (\<exists>i k. isRun us ts i k \<and> ?r = k)"
      using 1(1) [OF True] by auto
    have a: "m \<le> ?r" using IH(1) by simp
    have b: "(if i = 0 then c + k else k) \<le> ?r" if run: "isRun (u # us) (t # ts) i k" for i k
    proof (cases i)
      case 0
      show ?thesis
      proof (cases k)
        case 0
        with \<open>i = 0\<close> IH(1) show ?thesis by simp
      next
        case (Suc k')
        with run \<open>i = 0\<close> have "isRun us ts 0 k'" by simp
        from IH(2) [OF this] Suc \<open>i = 0\<close> show ?thesis by simp
      qed
    next
      case (Suc i')
      with run have "isRun us ts i' k" by simp
      from IH(2) [OF this] Suc show ?thesis by (simp split: if_splits)
    qed
    have c: "?r = m \<or> (\<exists>k. isRun (u # us) (t # ts) 0 k \<and> ?r = c + k)
        \<or> (\<exists>i k. isRun (u # us) (t # ts) i k \<and> ?r = k)"
      using IH(3)
    proof (elim disjE exE conjE)
      assume e: "?r = max m (c + 1)"
      show ?thesis
      proof (cases "m \<le> c + 1")
        case True
        have "isRun (u # us) (t # ts) 0 (Suc 0)" using \<open>u = t\<close> by simp
        moreover have "?r = c + Suc 0" using e True by (simp add: max_def)
        ultimately show ?thesis by blast
      next
        case False
        then show ?thesis using e by (simp add: max_def)
      qed
    next
      fix k assume "isRun us ts 0 k" "?r = c + 1 + k"
      then have "isRun (u # us) (t # ts) 0 (Suc k)" "?r = c + Suc k"
        using \<open>u = t\<close> by simp_all
      then show ?thesis by blast
    next
      fix i k assume "isRun us ts i k" "?r = k"
      then have "isRun (u # us) (t # ts) (Suc i) k" by simp
      with \<open>?r = k\<close> show ?thesis by blast
    qed
    show ?thesis unfolding r using a b c by blast
  next
    case False
    let ?r = "orderLoop us ts 0 m"
    have r: "orderLoop (u # us) (t # ts) c m = ?r" using False by simp
    have IH: "m \<le> ?r"
      "\<And>i k. isRun us ts i k \<Longrightarrow> k \<le> ?r"
      "?r = m \<or> (\<exists>k. isRun us ts 0 k \<and> ?r = k)
        \<or> (\<exists>i k. isRun us ts i k \<and> ?r = k)"
      using 1(2) [OF False] by (auto split: if_splits)
    have b: "(if i = 0 then c + k else k) \<le> ?r" if run: "isRun (u # us) (t # ts) i k" for i k
    proof (cases i)
      case 0
      have "k = 0"
      proof (cases k)
        case (Suc k')
        with run \<open>i = 0\<close> False show ?thesis by simp
      qed simp
      with 0 IH(1) \<open>c \<le> m\<close> show ?thesis by simp
    next
      case (Suc i')
      with run have "isRun us ts i' k" by simp
      from IH(2) [OF this] Suc show ?thesis by simp
    qed
    have c: "?r = m \<or> (\<exists>k. isRun (u # us) (t # ts) 0 k \<and> ?r = c + k)
        \<or> (\<exists>i k. isRun (u # us) (t # ts) i k \<and> ?r = k)"
      using IH(3)
    proof (elim disjE exE conjE)
      assume "?r = m" then show ?thesis by simp
    next
      fix k assume "isRun us ts 0 k" "?r = k"
      then have "isRun (u # us) (t # ts) (Suc 0) k" by simp
      with \<open>?r = k\<close> show ?thesis by blast
    next
      fix i k assume "isRun us ts i k" "?r = k"
      then have "isRun (u # us) (t # ts) (Suc i) k" by simp
      with \<open>?r = k\<close> show ?thesis by blast
    qed
    show ?thesis unfolding r using IH(1) b c by blast
  qed
qed simp_all

lemma orderLoop_longestRun: "orderLoop U T 0 0 = longestRun U T"
proof -
  let ?r = "orderLoop U T 0 0"
  let ?A = "{k. \<exists>i. isRun U T i k}"
  have inv: "\<And>i k. isRun U T i k \<Longrightarrow> k \<le> ?r"
    "?r = 0 \<or> (\<exists>i k. isRun U T i k \<and> ?r = k)"
    using orderLoop_inv [of 0 0 U T] by (auto split: if_splits)
  have "isRun U T 0 0" by simp
  with inv(2) have mem: "?r \<in> ?A" by auto
  have ub: "\<forall>k \<in> ?A. k \<le> ?r" using inv(1) by auto
  then have "?A \<subseteq> {..?r}" by auto
  then have fin: "finite ?A" by (rule finite_subset) simp
  have "Max ?A = ?r" using fin ub mem by (intro Max_eqI) auto
  then show ?thesis by (simp add: longestRun_def)
qed

section \<open>The accuracy score\<close>

lemma Math_round_of_int [simp]: "Math_round (of_int n) = n"
  by (simp add: Math_round_def)

lemma Math_round_numeral [simp]: "Math_round (numeral n) = numeral n"
  using Math_round_of_int [of "numeral n"] by simp

lemma Math_round_zero [simp]: "Math_round 0 = 0"
  using Math_round_of_int [of 0] by simp

lemma Math_round_nonpos: "x \<le> 0 \<Longrightarrow> Math_round x \<le> 0"
  by (simp add: Math_round_def floor_le_iff)

lemma Math_round_mono: "x \<le> y \<Longrightarrow> Math_round x \<le> Math_round y"
  by (simp add: Math_round_def floor_mono)

lemma round_clamp: "max 0 (min 100 (Math_round x)) = Math_round (clamp x 0 100)"
proof -
  consider "x \<le> 0" | "0 < x" "x < 100" | "100 \<le> x" by linarith
  then show ?thesis
  proof cases
    case 1
    then have "Math_round x \<le> 0" by (rule Math_round_nonpos)
    with 1 show ?thesis by (simp add: clamp_def max_def min_def)
  next
    case 2
    then have "0 \<le> Math_round x" "Math_round x \<le> 100"
      using Math_round_mono [of 0 x] Math_round_mono [of x 100] by simp_all
    with 2 show ?thesis by (simp add: clamp_def max_def min_def)
  next
    case 3
    then have "100 \<le> Math_round x"
      using Math_round_mono [of 100 x] by simp
    with 3 show ?thesis by (simp add: clamp_def max_def min_def)
  qed
qed

lemma lowerWords_map:
  "split_ws (trim (toLowerCase s)) = map toLowerCase (split_ws (trim s))"
  by (simp add: trim_toLowerCase split_ws_toLowerCase)

lemma trim_toLowerCase_Nil_iff [simp]: "trim (toLowerCase s) = [] \<longleftrightarrow> trim s = []"
  by (simp add: trim_toLowerCase)

lemma lowerWords_tokens:
  "trim s \<noteq> [] \<Longrightarrow> split_ws (trim (toLowerCase s)) = tokens (toLowerCase s)"
  by (simp add: split_ws_trim tokens_Nil_iff)

lemma lowerWords_blank: "trim s = [] \<Longrightarrow> split_ws (trim (toLowerCase s)) = [[]]"
  by (simp add: split_ws_trim tokens_Nil_iff)

lemma calculateLengthPenalty_words:
  "calculateLengthPenalty u t =
     lengthPenalty (split_ws (trim (toLowerCase u))) (split_ws (trim (toLowerCase t)))"
  by (simp add: calculateLengthPenalty_def lengthPenalty_def Let_def lowerWords_map)

lemma comparePhonemes_words:
  "u \<noteq> [] \<Longrightarrow> t \<noteq> [] \<Longrightarrow>
   comparePhonemes u t =
     Math_round (baseScore (split_ws (trim (toLowerCase u))) (split_ws (trim (toLowerCase t))))"
  by (simp add: comparePhonemes_def baseScore_def Let_def matchLoop_sum)

lemma calculateWordOrderBonus_words:
  "calculateWordOrderBonus u t =
     orderBonus (split_ws (trim (toLowerCase u))) (split_ws (trim (toLowerCase t)))"
  by (simp add: calculateWordOrderBonus_def orderBonus_def Let_def orderLoop_longestRun)

lemma compareTexts_words:
  assumes "u \<noteq> []" "t \<noteq> []"
  shows "compareTexts u t =
     (let U = split_ws (trim (toLowerCase u)); T = split_ws (trim (toLowerCase t))
      in Math_round (clamp (real_of_int (Math_round (baseScore U T)) * (7 / 10)
           + orderBonus U T * (2 / 10) - lengthPenalty U T * (1 / 10)) 0 100))"
  using assms
  by (simp add: compareTexts_def Let_def round_clamp comparePhonemes_words
      calculateWordOrderBonus_words calculateLengthPenalty_words)

lemma baseScore_same: "ws \<noteq> [] \<Longrightarrow> baseScore ws ws = 100"
  by (simp add: baseScore_def)

lemma longestRun_same: "longestRun ws ws = length ws"
  using orderLoop_longestRun [of ws ws] orderLoop_same [of 0 0 ws] by simp

lemma orderBonus_same: "ws \<noteq> [] \<Longrightarrow> orderBonus ws ws = 20"
  by (simp add: orderBonus_def longestRun_same)

lemma lengthPenalty_same: "lengthPenalty ws ws = 0"
  by (simp add: lengthPenalty_def)

lemma compareTexts_same_words:
  assumes "u \<noteq> []" "t \<noteq> []"
    and "split_ws (trim (toLowerCase u)) = split_ws (trim (toLowerCase t))"
  shows "compareTexts u t = 74" and "comparePhonemes u t = 100"
proof -
  let ?T = "split_ws (trim (toLowerCase t))"
  have ne: "?T \<noteq> []" by (rule split_ws_nonempty)
  show "comparePhonemes u t = 100"
    using assms ne by (simp add: comparePhonemes_words baseScore_same)
  have "compareTexts u t = Math_round (clamp (real_of_int (Math_round 100) * (7 / 10)
           + 20 * (2 / 10) - 0 * (1 / 10)) 0 100)"
    using assms ne
    by (simp add: compareTexts_words Let_def baseScore_same orderBonus_same lengthPenalty_same)
  also have "\<dots> = 74"
    by (simp add: clamp_def)
  finally show "compareTexts u t = 74" .
qed

lemma compareTexts_toLowerCase:
  "compareTexts (toLowerCase u) (toLowerCase t) = compareTexts u t"
proof (cases "u = [] \<or> t = []")
  case True
  then show ?thesis by (auto simp: compareTexts_def)
next
  case False
  then show ?thesis by (simp add: compareTexts_words)
qed

text \<open>
  C1, as the code has it. Two non-empty texts that are identical up to letter case score
  74, not 100: their base score \<open>comparePhonemes\<close> is 100, the word-order bonus is 20 and the
  length penalty 0, and the weights give \<open>100 * 0.7 + 20 * 0.2 - 0 * 0.1 = 74\<close>. In
  particular every non-empty text scores 74 against itself. Letter case never changes the
  score: lowering both texts leaves it as it is.
\<close>

theorem compareTexts_identical_up_to_case:
  "(u \<noteq> [] \<and> t \<noteq> [] \<and> toLowerCase u = toLowerCase t
      \<longrightarrow> compareTexts u t = 74 \<and> comparePhonemes u t = 100)
   \<and> (s \<noteq> [] \<longrightarrow> compareTexts s s = 74 \<and> comparePhonemes s s = 100)
   \<and> compareTexts (toLowerCase u) (toLowerCase t) = compareTexts u t"
  using compareTexts_same_words [of u t] compareTexts_same_words [of s s]
    compareTexts_toLowerCase [of u t]
  by simp

theorem compareTexts_identical_up_to_case_witness:
  "''Hello World'' \<noteq> [] \<and> ''hello world'' \<noteq> []
   \<and> toLowerCase ''Hello World'' = toLowerCase ''hello world''
   \<and> compareTexts ''Hello World'' ''hello world'' = 74
   \<and> comparePhonemes ''Hello World'' ''hello world'' = 100
   \<and> compareTexts ''hello world'' ''hello world'' = 74"
proof -
  have h: "toLowerCase ''Hello World'' = toLowerCase ''hello world''"
    by code_simp
  show ?thesis
    using h compareTexts_identical_up_to_case [of "''Hello World''" "''hello world''" "''hello world''"]
    by simp
qed

text \<open>
  The claim C1 at \<open>"Hello World"\<close> against \<open>"hello world"\<close>, and at \<open>"hello world"\<close> against
  itself: the score is 74.
\<close>

theorem compareTexts_identical_not_100:
  "compareTexts ''Hello World'' ''hello world'' = 74
   \<and> compareTexts ''Hello World'' ''hello world'' \<noteq> 100
   \<and> compareTexts ''hello world'' ''hello world'' \<noteq> 100"
  by code_simp

lemma levenshteinDistance_Nil: "levenshteinDistance w [] = length w"
  by (simp add: levenshteinDistance_def)

lemma similarity_Nil_left: "w \<noteq> [] \<Longrightarrow> calculateStringSimilarity [] w = 0"
  by (simp add: calculateStringSimilarity_def levenshteinDistance_Nil)

lemma similarity_Nil_right: "w \<noteq> [] \<Longrightarrow> calculateStringSimilarity w [] = 0"
  by (simp add: calculateStringSimilarity_def levenshteinDistance_Nil)


lemma baseScore_code:
  "baseScore U T = matchLoop U T 0 / real (max (length U) (length T)) * 100"
  by (simp add: baseScore_def matchLoop_sum)


lemma compareTexts_one_blank:
  assumes "u \<noteq> []" "t \<noteq> []" and "(trim u = []) \<noteq> (trim t = [])"
  shows "compareTexts u t = 0"
proof -
  let ?U = "split_ws (trim (toLowerCase u))"
  let ?T = "split_ws (trim (toLowerCase t))"
  have zero: "baseScore ?U ?T = 0 \<and> longestRun ?U ?T = 0"
  proof (cases "trim u = []")
    case True
    with assms(3) have t: "trim t \<noteq> []" by simp
    have U: "?U = [[]]" using True by (rule lowerWords_blank)
    have T: "?T = tokens (toLowerCase t)" using t by (rule lowerWords_tokens)
    have "?T \<noteq> []" by (rule split_ws_nonempty)
    then obtain w ws where ws: "?T = w # ws" by (cases ?T) auto
    have "[] \<notin> set ?T" unfolding T by (rule tokens_no_empty)
    with ws have w: "w \<noteq> []" by auto
    have "matchLoop ?U ?T 0 = 0" "orderLoop ?U ?T 0 0 = 0"
      using w by (simp_all add: U ws similarity_Nil_left)
    then show ?thesis
      by (simp add: baseScore_code orderLoop_longestRun [symmetric])
  next
    case False
    with assms(3) have t: "trim t = []" by simp
    have T: "?T = [[]]" using t by (rule lowerWords_blank)
    have U: "?U = tokens (toLowerCase u)" using False by (rule lowerWords_tokens)
    have "?U \<noteq> []" by (rule split_ws_nonempty)
    then obtain w ws where ws: "?U = w # ws" by (cases ?U) auto
    have "[] \<notin> set ?U" unfolding U by (rule tokens_no_empty)
    with ws have w: "w \<noteq> []" by auto
    have "matchLoop ?U ?T 0 = 0" "orderLoop ?U ?T 0 0 = 0"
      using w by (simp_all add: T ws similarity_Nil_right)
    then show ?thesis
      by (simp add: baseScore_code orderLoop_longestRun [symmetric])
  qed
  have pen: "0 \<le> lengthPenalty ?U ?T" by (simp add: lengthPenalty_def)
  have "compareTexts u t = Math_round (clamp (- (lengthPenalty ?U ?T * (1 / 10))) 0 100)"
    using assms(1,2) zero by (simp add: compareTexts_words Let_def orderBonus_def)
  also have "clamp (- (lengthPenalty ?U ?T * (1 / 10))) 0 100 = 0"
    using pen by (simp add: clamp_def max_def min_def)
  finally show ?thesis by simp
qed

lemma compareTexts_both_blank:
  assumes "u \<noteq> []" "t \<noteq> []" "trim u = []" "trim t = []"
  shows "compareTexts u t = 74"
  using assms by (intro compareTexts_same_words) (simp_all add: lowerWords_blank)


lemma relayout_tokens: "relayout s s' \<Longrightarrow> tokens s = tokens s'"
proof (induction rule: relayout.induct)
  case (lead ws s)
  then show ?case by (simp add: tokens_lead list_all_iff)
next
  case (trail ws s)
  then show ?case by (simp add: tokens_trail list_all_iff)
next
  case (inner ws ws' a b)
  then show ?case by (simp add: tokens_inner list_all_iff)
qed simp_all

lemma lowerWords_of_tokens:
  "split_ws (trim (toLowerCase s)) = map toLowerCase (if tokens s = [] then [[]] else tokens s)"
  by (subst lowerWords_map) (simp only: split_ws_trim)

lemma compareTexts_relayout:
  assumes "relayout u u'" "relayout t t'" "u \<noteq> []" "u' \<noteq> []" "t \<noteq> []" "t' \<noteq> []"
  shows "compareTexts u t = compareTexts u' t'"
proof -
  have "split_ws (trim (toLowerCase u)) = split_ws (trim (toLowerCase u'))"
    "split_ws (trim (toLowerCase t)) = split_ws (trim (toLowerCase t'))"
    using relayout_tokens [OF assms(1)] relayout_tokens [OF assms(2)]
    by (simp_all only: lowerWords_of_tokens)
  then show ?thesis
    using assms(3-6) by (simp add: compareTexts_words)
qed

lemma relayout_example: "relayout ''hello world'' ''  hello   world  ''"
proof -
  have 1: "relayout (''hello'' @ '' '' @ ''world'') (''hello'' @ ''   '' @ ''world'')"
    by (rule relayout.inner) (simp_all add: isSpace_def)
  have 2: "relayout ''hello   world'' (''  '' @ ''hello   world'')"
    by (rule relayout.lead) (simp add: isSpace_def)
  have 3: "relayout ''  hello   world'' (''  hello   world'' @ ''  '')"
    by (rule relayout.trail) (simp add: isSpace_def)
  from 1 2 3 show ?thesis
    by (auto intro: relayout.trans)
qed

section \<open>The positional walk of the error report\<close>

lemma walk_prefix:
  "fold (specStep U T) [0..<n] emptyReport =
     \<lparr>missedWords = drop (length U) (take n T), addedWords = drop (length T) (take n U),
      substitutions = substitutionsOf (take n U) (take n T)\<rparr>"
proof (induction n)
  case 0
  then show ?case by (simp add: emptyReport_def substitutionsOf_def)
next
  case (Suc n)
  consider (a) "n < length T" "\<not> n < length U" | (b) "n < length U" "\<not> n < length T"
    | (c) "n < length U" "n < length T" | (d) "\<not> n < length U" "\<not> n < length T"
    by blast
  then show ?case
  proof cases
    case a
    then show ?thesis
      using Suc by (simp add: specStep_def take_Suc_conv_app_nth substitutionsOf_def zip_append2)
  next
    case b
    then show ?thesis
      using Suc by (simp add: specStep_def take_Suc_conv_app_nth substitutionsOf_def zip_append1)
  next
    case c
    then show ?thesis
      using Suc by (simp add: specStep_def take_Suc_conv_app_nth substitutionsOf_def)
  next
    case d
    then show ?thesis
      using Suc by (simp add: specStep_def)
  qed
qed

lemma positionalWalk_closed:
  "positionalWalk U T =
     \<lparr>missedWords = drop (length U) T, addedWords = drop (length T) U,
      substitutions = substitutionsOf U T\<rparr>"
  by (simp add: positionalWalk_def walk_prefix)

lemma specStep_beyond: "length U \<le> i \<Longrightarrow> length T \<le> i \<Longrightarrow> specStep U T i r = r"
  by (simp add: specStep_def)

lemma fold_specStep_beyond:
  "length U \<le> m \<Longrightarrow> length T \<le> m \<Longrightarrow> fold (specStep U T) [m..<n] r = r"
proof (induction n)
  case 0
  then show ?case by simp
next
  case (Suc n)
  then show ?case by (cases "m \<le> n") (simp_all add: specStep_beyond)
qed

lemma walk_longer:
  assumes "max (length U) (length T) \<le> n"
  shows "fold (specStep U T) [0..<n] emptyReport = positionalWalk U T"
proof -
  let ?m = "max (length U) (length T)"
  have "[0..<n] = [0..<?m] @ [?m..<n]"
    using assms by (metis le_add_diff_inverse upt_add_eq_append zero_le)
  then show ?thesis
    by (simp add: positionalWalk_def fold_specStep_beyond)
qed

lemma wordAt_present:
  assumes "[] \<notin> set U" "i < length U"
  shows "wordAt (if U = [] then [[]] else U) i = Some (U ! i)" and "U ! i \<noteq> []"
proof -
  from assms(2) have "U \<noteq> []" by auto
  with assms(2) show "wordAt (if U = [] then [[]] else U) i = Some (U ! i)"
    by (simp add: wordAt_def)
  from assms show "U ! i \<noteq> []" by (metis nth_mem)
qed

lemma wordAt_absent:
  assumes "\<not> i < length U"
  shows "\<not> truthy (wordAt (if U = [] then [[]] else U) i)"
  using assms by (cases i) (auto simp: wordAt_def)

lemma errorStep_specStep:
  assumes "[] \<notin> set U" "[] \<notin> set T"
  shows "errorStep (if U = [] then [[]] else U) (if T = [] then [[]] else T) i r
           = specStep U T i r"
proof -
  let ?U' = "if U = [] then [[]] else U"
  let ?T' = "if T = [] then [[]] else T"
  consider (a) "i < length T" "\<not> i < length U" | (b) "i < length U" "\<not> i < length T"
    | (c) "i < length U" "i < length T" | (d) "\<not> i < length U" "\<not> i < length T"
    by blast
  then show ?thesis
  proof cases
    case a
    have "wordAt ?T' i = Some (T ! i)" "T ! i \<noteq> []" "\<not> truthy (wordAt ?U' i)"
      using wordAt_present [OF assms(2) a(1)] wordAt_absent [OF a(2)] by simp_all
    with a show ?thesis by (simp add: errorStep_def specStep_def Let_def)
  next
    case b
    have "wordAt ?U' i = Some (U ! i)" "U ! i \<noteq> []" "\<not> truthy (wordAt ?T' i)"
      using wordAt_present [OF assms(1) b(1)] wordAt_absent [OF b(2)] by simp_all
    with b show ?thesis by (simp add: errorStep_def specStep_def Let_def)
  next
    case c
    have "wordAt ?U' i = Some (U ! i)" "U ! i \<noteq> []" "wordAt ?T' i = Some (T ! i)" "T ! i \<noteq> []"
      using wordAt_present [OF assms(1) c(1)] wordAt_present [OF assms(2) c(2)] by simp_all
    with c show ?thesis by (simp add: errorStep_def specStep_def Let_def)
  next
    case d
    have "\<not> truthy (wordAt ?U' i)" "\<not> truthy (wordAt ?T' i)"
      using wordAt_absent [OF d(1)] wordAt_absent [OF d(2)] by simp_all
    with d show ?thesis by (simp add: errorStep_def specStep_def Let_def)
  qed
qed

lemma analyzeErrors_walk:
  "analyzeErrors u t = positionalWalk (tokens (toLowerCase u)) (tokens (toLowerCase t))"
proof -
  let ?U = "tokens (toLowerCase u)"
  let ?T = "tokens (toLowerCase t)"
  let ?U' = "if ?U = [] then [[]] else ?U"
  let ?T' = "if ?T = [] then [[]] else ?T"
  have step: "errorStep ?U' ?T' = specStep ?U ?T"
    by (intro ext errorStep_specStep tokens_no_empty)
  have "max (length ?U) (length ?T) \<le> max (length ?U') (length ?T')"
    by auto
  then have "fold (specStep ?U ?T) [0..<max (length ?U') (length ?T')] emptyReport
               = positionalWalk ?U ?T"
    by (rule walk_longer)
  then show ?thesis
    unfolding analyzeErrors_def Let_def split_ws_trim step .
qed

lemma length_substitutionsOf: "length (substitutionsOf U T) \<le> min (length U) (length T)"
proof -
  have "length (substitutionsOf U T) \<le> length (zip U T)"
    unfolding substitutionsOf_def length_map by (rule length_filter_le)
  then show ?thesis by simp
qed

lemma analyzeErrors_blank:
  assumes "trim u = []" "trim t = []"
  shows "analyzeErrors u t = emptyReport"
proof -
  have "tokens (toLowerCase u) = []" "tokens (toLowerCase t) = []"
    using assms by (simp_all add: tokens_Nil_iff)
  then show ?thesis
    by (simp add: analyzeErrors_walk positionalWalk_def)
qed

section \<open>The claims about the score and the error report\<close>




text \<open>
  C3, as the code has it. The score is 0 when either text is the empty string, and when
  exactly one of the two texts is blank (empty after trimming). Two blank texts give the
  empty error report.
\<close>

theorem compareTexts_empty_inputs:
  "(u = [] \<or> t = [] \<longrightarrow> compareTexts u t = 0)
   \<and> ((trim u = []) \<noteq> (trim t = []) \<longrightarrow> compareTexts u t = 0)
   \<and> (trim u = [] \<and> trim t = [] \<longrightarrow> analyzeErrors u t = emptyReport)"
proof -
  have 1: "u = [] \<or> t = [] \<longrightarrow> compareTexts u t = 0"
    by (auto simp: compareTexts_def)
  have 2: "(trim u = []) \<noteq> (trim t = []) \<longrightarrow> compareTexts u t = 0"
  proof (cases "u = [] \<or> t = []")
    case True
    with 1 show ?thesis by simp
  next
    case False
    then show ?thesis using compareTexts_one_blank [of u t] by blast
  qed
  have 3: "trim u = [] \<and> trim t = [] \<longrightarrow> analyzeErrors u t = emptyReport"
    using analyzeErrors_blank [of u t] by blast
  from 1 2 3 show ?thesis by blast
qed

theorem compareTexts_empty_inputs_witness:
  "compareTexts [] [] = 0 \<and> compareTexts [] ''x'' = 0 \<and> compareTexts ''x'' [] = 0
   \<and> (trim '' '' = []) \<noteq> (trim ''x y'' = []) \<and> compareTexts '' '' ''x y'' = 0
   \<and> trim '' '' = []
   \<and> analyzeErrors [] [] = emptyReport \<and> analyzeErrors '' '' '' '' = emptyReport"
proof -
  have h: "trim [] = []" "trim '' '' = []" "trim ''x y'' \<noteq> []"
    by code_simp+
  show ?thesis
    using h compareTexts_empty_inputs [of "[]" "[]"] compareTexts_empty_inputs [of "[]" "''x''"]
      compareTexts_empty_inputs [of "''x''" "[]"] compareTexts_empty_inputs [of "'' ''" "''x y''"]
      compareTexts_empty_inputs [of "'' ''" "'' ''"]
    by simp
qed

text \<open>
  The claim C3 at two texts of one space each: both are empty after trimming, neither is
  the empty string, each is split into one empty word, and the score is that of two equal
  texts, 74.
\<close>

theorem compareTexts_blank_pair_scores:
  "trim '' '' = [] \<and> compareTexts '' '' '' '' = 74 \<and> compareTexts '' '' '' '' \<noteq> 0"
  by code_simp

text \<open>
  C7, as the code has it. Another whitespace layout of either text leaves the score as it
  is, as long as no text is or becomes the empty string.
\<close>

theorem compareTexts_whitespace_layout:
  assumes "relayout u u'" and "relayout t t'"
    and "u \<noteq> []" and "u' \<noteq> []" and "t \<noteq> []" and "t' \<noteq> []"
  shows "compareTexts u t = compareTexts u' t'"
  using assms by (rule compareTexts_relayout)

theorem compareTexts_whitespace_layout_witness:
  "relayout ''hello world'' ''  hello   world  '' \<and> relayout ''hello world'' ''hello world''
   \<and> compareTexts ''hello world'' ''hello world''
       = compareTexts ''  hello   world  '' ''hello world''
   \<and> compareTexts ''  hello   world  '' ''hello world'' = 74"
proof -
  have r: "relayout ''hello world'' ''hello world''"
    by (rule relayout.same)
  have v: "compareTexts ''hello world'' ''hello world'' = 74"
    by code_simp
  have "compareTexts ''hello world'' ''hello world''
          = compareTexts ''  hello   world  '' ''hello world''"
    by (rule compareTexts_whitespace_layout [OF relayout_example r]) simp_all
  with r v relayout_example show ?thesis by simp
qed

text \<open>
  The claim C7 at \<open>"  hello   world  "\<close> against \<open>"hello world"\<close>: the score is 74, not 100.
  And at the empty string: a space added to it changes the score against a blank text
  from 0 to 74.
\<close>

theorem compareTexts_layout_not_100:
  "compareTexts ''  hello   world  '' ''hello world'' = 74
   \<and> compareTexts ''  hello   world  '' ''hello world'' \<noteq> 100
   \<and> relayout [] '' ''
   \<and> compareTexts [] '' '' \<noteq> compareTexts '' '' '' ''"
proof -
  have a: "compareTexts ''  hello   world  '' ''hello world'' = 74"
    by code_simp
  have b: "compareTexts [] '' '' = 0" "compareTexts '' '' '' '' = 74"
    by code_simp+
  have c: "relayout [] ('' '' @ [])"
    by (rule relayout.lead) (simp add: isSpace_def)
  from a b c show ?thesis by simp
qed

text \<open>
  C5. \<open>analyzeErrors\<close> returns the report of the positional walk over the words of the two
  lowered texts: at each position up to the longer length, a word that only the target has
  is missed, a word that only the user has is added, and two unequal words are a
  substitution. A blank text has no words; the code splits it into one empty word, which
  its tests for a present word treat as absent. So \<open>"hello earth"\<close> against
  \<open>"hello world"\<close> gives the substitution of \<open>earth\<close> for \<open>world\<close> and nothing else.
\<close>

theorem analyzeErrors_positional_walk:
  "analyzeErrors u t = positionalWalk (tokens (toLowerCase u)) (tokens (toLowerCase t))
   \<and> analyzeErrors ''hello earth'' ''hello world''
       = \<lparr>missedWords = [], addedWords = [],
          substitutions = [\<lparr>original = ''world'', spoken = ''earth''\<rparr>]\<rparr>"
proof -
  have "analyzeErrors ''hello earth'' ''hello world''
       = \<lparr>missedWords = [], addedWords = [],
          substitutions = [\<lparr>original = ''world'', spoken = ''earth''\<rparr>]\<rparr>"
    by code_simp
  then show ?thesis by (simp add: analyzeErrors_walk)
qed

text \<open>
  C10. For two texts that are not blank, with the word counts the code computes: the
  number of missed words is the target count minus the user count or 0, the number of added
  words is the user count minus the target count or 0, so one of the two lists is empty;
  there are at most as many substitutions as the shorter list has words; every missed word
  is a target word and every added word is a user word.
\<close>

theorem analyzeErrors_counts:
  assumes "trim u \<noteq> []" and "trim t \<noteq> []"
  shows "(let r = analyzeErrors u t;
              U = split_ws (trim (toLowerCase u));
              T = split_ws (trim (toLowerCase t))
          in int (length (missedWords r)) = max 0 (int (length T) - int (length U))
             \<and> int (length (addedWords r)) = max 0 (int (length U) - int (length T))
             \<and> (missedWords r = [] \<or> addedWords r = [])
             \<and> length (substitutions r) \<le> min (length U) (length T)
             \<and> set (missedWords r) \<subseteq> set T
             \<and> set (addedWords r) \<subseteq> set U)"
proof -
  let ?U = "tokens (toLowerCase u)"
  let ?T = "tokens (toLowerCase t)"
  have U: "split_ws (trim (toLowerCase u)) = ?U" using assms(1) by (rule lowerWords_tokens)
  have T: "split_ws (trim (toLowerCase t)) = ?T" using assms(2) by (rule lowerWords_tokens)
  have r: "analyzeErrors u t =
     \<lparr>missedWords = drop (length ?U) ?T, addedWords = drop (length ?T) ?U,
      substitutions = substitutionsOf ?U ?T\<rparr>"
    by (simp only: analyzeErrors_walk positionalWalk_closed)
  have sub: "length (substitutionsOf ?U ?T) \<le> min (length ?U) (length ?T)"
    by (rule length_substitutionsOf)
  have "set (drop (length ?U) ?T) \<subseteq> set ?T" "set (drop (length ?T) ?U) \<subseteq> set ?U"
    by (rule set_drop_subset)+
  moreover have "drop (length ?U) ?T = [] \<or> drop (length ?T) ?U = []"
    by auto
  ultimately show ?thesis
    unfolding Let_def U T r using sub by (simp add: max_def)
qed

theorem analyzeErrors_counts_witness:
  "trim ''hi there friend'' \<noteq> [] \<and> trim ''hello beautiful world today'' \<noteq> []
   \<and> (let r = analyzeErrors ''hi there friend'' ''hello beautiful world today'';
          U = split_ws (trim (toLowerCase ''hi there friend''));
          T = split_ws (trim (toLowerCase ''hello beautiful world today''))
      in int (length (missedWords r)) = max 0 (int (length T) - int (length U))
         \<and> int (length (addedWords r)) = max 0 (int (length U) - int (length T))
         \<and> (missedWords r = [] \<or> addedWords r = [])
         \<and> length (substitutions r) \<le> min (length U) (length T)
         \<and> set (missedWords r) \<subseteq> set T
         \<and> set (addedWords r) \<subseteq> set U)
   \<and> missedWords (analyzeErrors ''hi there friend'' ''hello beautiful world today'')
       = [''today'']"
proof -
  have h: "trim ''hi there friend'' \<noteq> []" "trim ''hello beautiful world today'' \<noteq> []"
    by code_simp+
  have v: "missedWords (analyzeErrors ''hi there friend'' ''hello beautiful world today'')
       = [''today'']"
    by code_simp
  show ?thesis
    using h v analyzeErrors_counts [OF h] by simp
qed

section \<open>The numeric difficulty\<close>















lemma Math_round_one [simp]: "Math_round 1 = 1"
  using Math_round_of_int [of 1] by simp






section \<open>The difficulty tier\<close>






end
